theory Spec2Isabelle
  imports Main "HOL-Library.Multiset"
begin

section \<open>Library types used by the store: time, int, strings, sort.Slice\<close>

text \<open>
  A \<^verbatim>\<open>time.Time\<close> is modelled as the integer number of nanoseconds since Go's zero
  time, so that \<^verbatim>\<open>IsZero\<close> is equality with 0 and \<^verbatim>\<open>Before\<close>/\<^verbatim>\<open>After\<close> are the strict
  orders. A \<^verbatim>\<open>time.Duration\<close> is an integer number of nanoseconds. Every call of
  \<^verbatim>\<open>time.Now()\<close> in the source is an argument \<open>now\<close> of the modelled function.
\<close>

type_synonym time = int
type_synonym duration = int

definition time_IsZero :: "time \<Rightarrow> bool" where
  "time_IsZero t \<longleftrightarrow> t = 0"

definition time_Before :: "time \<Rightarrow> time \<Rightarrow> bool" where
  "time_Before t u \<longleftrightarrow> t < u"

definition time_After :: "time \<Rightarrow> time \<Rightarrow> bool" where
  "time_After t u \<longleftrightarrow> u < t"

definition time_Add :: "time \<Rightarrow> duration \<Rightarrow> time" where
  "time_Add t d = t + d"

definition time_Hour :: duration where
  "time_Hour = 3600000000000"

text \<open>
  Go's \<^verbatim>\<open>int\<close> is taken to be 64 bits wide. \<^verbatim>\<open>s.nextID++\<close> wraps around silently in
  Go; \<open>go_int_wrap\<close> is that wrap-around on the mathematical sum.
\<close>

definition go_int_max :: int where
  "go_int_max = 9223372036854775807"

definition go_int_min :: int where
  "go_int_min = - 9223372036854775808"

definition go_int_wrap :: "int \<Rightarrow> int" where
  "go_int_wrap x = (x + 9223372036854775808) mod 18446744073709551616 - 9223372036854775808"

text \<open>\<^verbatim>\<open>strings.Contains(s, substr)\<close>: \<open>substr\<close> occurs in \<open>s\<close> as a contiguous run of bytes.\<close>

fun has_prefix :: "string \<Rightarrow> string \<Rightarrow> bool" where
  "has_prefix s [] = True"
| "has_prefix [] (c # cs) = False"
| "has_prefix (d # ds) (c # cs) = (d = c \<and> has_prefix ds cs)"

fun strings_Contains :: "string \<Rightarrow> string \<Rightarrow> bool" where
  "strings_Contains [] substr = (substr = [])"
| "strings_Contains (d # ds) substr = (has_prefix (d # ds) substr \<or> strings_Contains ds substr)"

text \<open>
  \<^verbatim>\<open>sort.Slice(x, less)\<close> belongs to Go's standard library; the store relies on its
  documented contract only: the slice is permuted, and when \<open>less\<close> is a transitive
  ordering in the sense of \<^verbatim>\<open>sort.Interface\<close> the result is sorted, that is no element
  is \<open>less\<close> than one that precedes it. The sort is not stable. The sorting function is an
  argument \<open>srt\<close> of the operations that sort, constrained by \<open>sort_Slice_contract\<close>.
\<close>

definition less_transitive_ordering :: "('a \<Rightarrow> 'a \<Rightarrow> bool) \<Rightarrow> bool" where
  "less_transitive_ordering lt \<longleftrightarrow>
     (\<forall>a. \<not> lt a a) \<and>
     (\<forall>a b c. lt a b \<and> lt b c \<longrightarrow> lt a c) \<and>
     (\<forall>a b c. \<not> lt a b \<and> \<not> lt b c \<longrightarrow> \<not> lt a c)"

definition sort_Slice_contract :: "(('a \<Rightarrow> 'a \<Rightarrow> bool) \<Rightarrow> 'a list \<Rightarrow> 'a list) \<Rightarrow> bool" where
  "sort_Slice_contract srt \<longleftrightarrow>
     (\<forall>lt xs. mset (srt lt xs) = mset xs \<and>
        (less_transitive_ordering lt \<longrightarrow> sorted_wrt (\<lambda>a b. \<not> lt b a) (srt lt xs)))"

text \<open>One sorting function that meets the contract, used to run the operations.\<close>

fun place_by :: "('a \<Rightarrow> 'a \<Rightarrow> bool) \<Rightarrow> 'a \<Rightarrow> 'a list \<Rightarrow> 'a list" where
  "place_by lt x [] = [x]"
| "place_by lt x (y # ys) = (if lt x y then x # y # ys else y # place_by lt x ys)"

fun sort_by_less :: "('a \<Rightarrow> 'a \<Rightarrow> bool) \<Rightarrow> 'a list \<Rightarrow> 'a list" where
  "sort_by_less lt [] = []"
| "sort_by_less lt (x # xs) = place_by lt x (sort_by_less lt xs)"


section \<open>package models\<close>

record Todo =
  ID :: int
  Title :: string
  Description :: string
  Completed :: bool
  Priority :: int
  Category :: string
  DueDate :: time
  CreatedAt :: time
  UpdatedAt :: time

record TodoRequest =
  req_Title :: string
  req_Description :: string
  req_Completed :: bool
  req_Priority :: int
  req_Category :: string
  req_DueDate :: time

record TodoResponse =
  resp_ID :: int
  resp_Title :: string
  resp_Description :: string
  resp_Completed :: bool
  resp_Priority :: int
  resp_Category :: string
  resp_DueDate :: time
  resp_CreatedAt :: time
  resp_UpdatedAt :: time
  resp_Status :: string
  resp_IsOverdue :: bool

text \<open>
  The three status strings of \<^verbatim>\<open>ToResponse\<close>, as the UTF-8 bytes of the source literals
  (Chinese for "in progress", "completed" and "overdue").
\<close>

definition status_in_progress :: string where
  "status_in_progress =
     [CHR 0xE8, CHR 0xBF, CHR 0x9B, CHR 0xE8, CHR 0xA1, CHR 0x8C, CHR 0xE4, CHR 0xB8, CHR 0xAD]"

definition status_completed :: string where
  "status_completed =
     [CHR 0xE5, CHR 0xB7, CHR 0xB2, CHR 0xE5, CHR 0xAE, CHR 0x8C, CHR 0xE6, CHR 0x88, CHR 0x90]"

definition status_overdue :: string where
  "status_overdue =
     [CHR 0xE5, CHR 0xB7, CHR 0xB2, CHR 0xE8, CHR 0xBF, CHR 0x87, CHR 0xE6, CHR 0x9C, CHR 0x9F]"

definition ToResponse :: "time \<Rightarrow> Todo \<Rightarrow> TodoResponse" where
  "ToResponse now t =
     (let isOverdue = (\<not> Completed t \<and> \<not> time_IsZero (DueDate t) \<and> time_Before (DueDate t) now);
          status = (if Completed t then status_completed
                    else if isOverdue then status_overdue
                    else status_in_progress)
      in \<lparr>resp_ID = ID t, resp_Title = Title t, resp_Description = Description t,
          resp_Completed = Completed t, resp_Priority = Priority t, resp_Category = Category t,
          resp_DueDate = DueDate t, resp_CreatedAt = CreatedAt t, resp_UpdatedAt = UpdatedAt t,
          resp_Status = status, resp_IsOverdue = isOverdue\<rparr>)"

definition FromRequest :: "time \<Rightarrow> TodoRequest \<Rightarrow> Todo \<Rightarrow> Todo" where
  "FromRequest now req t =
     t\<lparr>Title := req_Title req, Description := req_Description req,
       Completed := req_Completed req, Priority := req_Priority req,
       Category := req_Category req, DueDate := req_DueDate req, UpdatedAt := now\<rparr>"


section \<open>package store\<close>

datatype error = ErrTodoNotFound | ErrInvalidID

text \<open>
  The store without its lock: the map from id to record and the id counter. Each key of
  the Go map holds a pointer to a record of its own, allocated by \<^verbatim>\<open>CreateTodo\<close> or
  \<^verbatim>\<open>Seed\<close>, so the map is modelled as a map to records and the in-place update of
  \<^verbatim>\<open>UpdateTodo\<close> as writing the changed record back under its key.
\<close>

record MemoryStore =
  todos :: "int \<rightharpoonup> Todo"
  nextID :: int

text \<open>
  A \<^verbatim>\<open>range\<close> over a Go map visits every key once in an order chosen by the runtime.
  The order is an argument \<open>ks\<close> of the operations that iterate; \<open>range_order\<close> says
  that \<open>ks\<close> is such an order for the store.
\<close>

definition range_order :: "MemoryStore \<Rightarrow> int list \<Rightarrow> bool" where
  "range_order s ks \<longleftrightarrow> distinct ks \<and> set ks = dom (todos s)"

fun range_values :: "(int \<rightharpoonup> Todo) \<Rightarrow> int list \<Rightarrow> Todo list" where
  "range_values m [] = []"
| "range_values m (k # ks) =
     (case m k of None \<Rightarrow> range_values m ks | Some t \<Rightarrow> t # range_values m ks)"

definition Seed :: "time \<Rightarrow> MemoryStore \<Rightarrow> MemoryStore" where
  "Seed now s =
     s\<lparr>todos := (todos s)
         (1 \<mapsto> \<lparr>ID = 1,
            Title = [CHR 0xE5, CHR 0xAD, CHR 0xA6, CHR 0xE4, CHR 0xB9, CHR 0xA0, CHR 0x20,
              CHR 0x47, CHR 0x6F, CHR 0x20, CHR 0xE8, CHR 0xAF, CHR 0xAD, CHR 0xE8, CHR 0xA8,
              CHR 0x80],
            Description = [CHR 0xE6, CHR 0x8E, CHR 0x8C, CHR 0xE6, CHR 0x8F, CHR 0xA1, CHR 0x20,
              CHR 0x47, CHR 0x6F, CHR 0x20, CHR 0xE8, CHR 0xAF, CHR 0xAD, CHR 0xE8, CHR 0xA8,
              CHR 0x80, CHR 0xE7, CHR 0x9A, CHR 0x84, CHR 0xE5, CHR 0x9F, CHR 0xBA, CHR 0xE7,
              CHR 0xA1, CHR 0x80, CHR 0xE8, CHR 0xAF, CHR 0xAD, CHR 0xE6, CHR 0xB3, CHR 0x95,
              CHR 0xE5, CHR 0x92, CHR 0x8C, CHR 0xE5, CHR 0xB9, CHR 0xB6, CHR 0xE5, CHR 0x8F,
              CHR 0x91, CHR 0xE7, CHR 0xBC, CHR 0x96, CHR 0xE7, CHR 0xA8, CHR 0x8B],
            Completed = False,
            Priority = 3,
            Category = [CHR 0xE5, CHR 0xAD, CHR 0xA6, CHR 0xE4, CHR 0xB9, CHR 0xA0],
            DueDate = time_Add now (7 * 24 * time_Hour),
            CreatedAt = time_Add now (- 2 * 24 * time_Hour),
            UpdatedAt = time_Add now (- 2 * 24 * time_Hour)\<rparr>,
          2 \<mapsto> \<lparr>ID = 2,
            Title = [CHR 0xE7, CHR 0xBC, CHR 0x96, CHR 0xE5, CHR 0x86, CHR 0x99, CHR 0x20,
              CHR 0x48, CHR 0x54, CHR 0x54, CHR 0x50, CHR 0x20, CHR 0xE6, CHR 0x9C, CHR 0x8D,
              CHR 0xE5, CHR 0x8A, CHR 0xA1, CHR 0xE5, CHR 0x99, CHR 0xA8],
            Description = [CHR 0xE4, CHR 0xBD, CHR 0xBF, CHR 0xE7, CHR 0x94, CHR 0xA8, CHR 0x20,
              CHR 0x47, CHR 0x6F, CHR 0x20, CHR 0xE5, CHR 0xAE, CHR 0x9E, CHR 0xE7, CHR 0x8E,
              CHR 0xB0, CHR 0xE4, CHR 0xB8, CHR 0x80, CHR 0xE4, CHR 0xB8, CHR 0xAA, CHR 0xE5,
              CHR 0xAE, CHR 0x8C, CHR 0xE6, CHR 0x95, CHR 0xB4, CHR 0xE7, CHR 0x9A, CHR 0x84,
              CHR 0x20, CHR 0x48, CHR 0x54, CHR 0x54, CHR 0x50, CHR 0x20, CHR 0xE6, CHR 0x9C,
              CHR 0x8D, CHR 0xE5, CHR 0x8A, CHR 0xA1, CHR 0xE5, CHR 0x99, CHR 0xA8],
            Completed = True,
            Priority = 4,
            Category = [CHR 0xE9, CHR 0xA1, CHR 0xB9, CHR 0xE7, CHR 0x9B, CHR 0xAE],
            DueDate = time_Add now (- 1 * 24 * time_Hour),
            CreatedAt = time_Add now (- 3 * 24 * time_Hour),
            UpdatedAt = time_Add now (- 1 * 24 * time_Hour)\<rparr>,
          3 \<mapsto> \<lparr>ID = 3,
            Title = [CHR 0xE9, CHR 0x83, CHR 0xA8, CHR 0xE7, CHR 0xBD, CHR 0xB2, CHR 0xE5,
              CHR 0x88, CHR 0xB0, CHR 0xE6, CHR 0x9C, CHR 0x8D, CHR 0xE5, CHR 0x8A, CHR 0xA1,
              CHR 0xE5, CHR 0x99, CHR 0xA8],
            Description = [CHR 0xE5, CHR 0xB0, CHR 0x86, CHR 0xE5, CHR 0xBA, CHR 0x94, CHR 0xE7,
              CHR 0x94, CHR 0xA8, CHR 0xE9, CHR 0x83, CHR 0xA8, CHR 0xE7, CHR 0xBD, CHR 0xB2,
              CHR 0xE5, CHR 0x88, CHR 0xB0, CHR 0xE7, CHR 0x94, CHR 0x9F, CHR 0xE4, CHR 0xBA,
              CHR 0xA7, CHR 0xE7, CHR 0x8E, CHR 0xAF, CHR 0xE5, CHR 0xA2, CHR 0x83],
            Completed = False,
            Priority = 2,
            Category = [CHR 0xE8, CHR 0xBF, CHR 0x90, CHR 0xE7, CHR 0xBB, CHR 0xB4],
            DueDate = time_Add now (3 * 24 * time_Hour),
            CreatedAt = time_Add now (- 1 * 24 * time_Hour),
            UpdatedAt = time_Add now (- 1 * 24 * time_Hour)\<rparr>),
       nextID := 4\<rparr>"

definition NewMemoryStore :: "time \<Rightarrow> MemoryStore" where
  "NewMemoryStore now = Seed now \<lparr>todos = Map.empty, nextID = 1\<rparr>"

definition GetAllTodos ::
  "((Todo \<Rightarrow> Todo \<Rightarrow> bool) \<Rightarrow> Todo list \<Rightarrow> Todo list) \<Rightarrow> int list \<Rightarrow> MemoryStore
     \<Rightarrow> error + Todo list" where
  "GetAllTodos srt ks s =
     (let todos0 = foldl (\<lambda>acc todo. acc @ [todo]) [] (range_values (todos s) ks);
          todos1 = srt (\<lambda>a b. time_After (CreatedAt a) (CreatedAt b)) todos0
      in Inr todos1)"

definition GetTodoByID :: "int \<Rightarrow> MemoryStore \<Rightarrow> error + Todo" where
  "GetTodoByID id0 s =
     (case todos s id0 of None \<Rightarrow> Inl ErrTodoNotFound | Some todo \<Rightarrow> Inr todo)"

definition CreateTodo ::
  "TodoRequest \<Rightarrow> time \<Rightarrow> MemoryStore \<Rightarrow> (error + Todo) \<times> MemoryStore" where
  "CreateTodo req now s =
     (let todo = \<lparr>ID = nextID s, Title = req_Title req, Description = req_Description req,
                  Completed = req_Completed req, Priority = req_Priority req,
                  Category = req_Category req, DueDate = req_DueDate req,
                  CreatedAt = now, UpdatedAt = now\<rparr>
      in (Inr todo,
          s\<lparr>todos := (todos s)(ID todo \<mapsto> todo), nextID := go_int_wrap (nextID s + 1)\<rparr>))"

definition UpdateTodo ::
  "int \<Rightarrow> TodoRequest \<Rightarrow> time \<Rightarrow> MemoryStore \<Rightarrow> (error + Todo) \<times> MemoryStore" where
  "UpdateTodo id0 req now s =
     (case todos s id0 of
        None \<Rightarrow> (Inl ErrTodoNotFound, s)
      | Some todo \<Rightarrow>
          (let todo' = FromRequest now req todo
           in (Inr todo', s\<lparr>todos := (todos s)(id0 \<mapsto> todo')\<rparr>)))"

definition DeleteTodo :: "int \<Rightarrow> MemoryStore \<Rightarrow> error option \<times> MemoryStore" where
  "DeleteTodo id0 s =
     (case todos s id0 of
        None \<Rightarrow> (Some ErrTodoNotFound, s)
      | Some _ \<Rightarrow> (None, s\<lparr>todos := (todos s)(id0 := None)\<rparr>))"

definition search_matches :: "string \<Rightarrow> string \<Rightarrow> bool option \<Rightarrow> Todo \<Rightarrow> bool" where
  "search_matches query category completed todo =
     (let matches0 = True;
          matches1 = (if query \<noteq> []
                      then matches0 \<and> (strings_Contains (Title todo) query
                                        \<or> strings_Contains (Description todo) query)
                      else matches0);
          matches2 = (if category \<noteq> [] then matches1 \<and> Category todo = category else matches1);
          matches3 = (case completed of
                        None \<Rightarrow> matches2
                      | Some c \<Rightarrow> matches2 \<and> Completed todo = c)
      in matches3)"

definition search_less :: "Todo \<Rightarrow> Todo \<Rightarrow> bool" where
  "search_less a b =
     (if Priority a \<noteq> Priority b then Priority a > Priority b
      else time_After (CreatedAt a) (CreatedAt b))"

definition SearchTodos ::
  "((Todo \<Rightarrow> Todo \<Rightarrow> bool) \<Rightarrow> Todo list \<Rightarrow> Todo list) \<Rightarrow> int list \<Rightarrow> string \<Rightarrow> string
     \<Rightarrow> bool option \<Rightarrow> MemoryStore \<Rightarrow> error + Todo list" where
  "SearchTodos srt ks query category completed s =
     (let results0 = foldl (\<lambda>results todo.
                        if search_matches query category completed todo
                        then results @ [todo] else results)
                      [] (range_values (todos s) ks);
          results1 = srt search_less results0
      in Inr results1)"

text \<open>
  \<^verbatim>\<open>GetStats\<close> returns a \<^verbatim>\<open>map[string]interface{}\<close> with six fixed keys; it is
  modelled as a record with one field for each key, named \<open>stats_\<close> and the key. The four counters are bounded by \<^verbatim>\<open>len(s.todos)\<close>,
  itself a Go \<^verbatim>\<open>int\<close>, so their increments cannot wrap and are plain additions.
\<close>

record Stats =
  stats_total :: int
  stats_completed :: int
  stats_pending :: int
  stats_overdue :: int
  stats_by_priority :: "int \<rightharpoonup> int"
  stats_by_category :: "string \<rightharpoonup> int"

definition map_incr :: "('k \<rightharpoonup> int) \<Rightarrow> 'k \<Rightarrow> ('k \<rightharpoonup> int)" where
  "map_incr m k = m(k \<mapsto> (case m k of None \<Rightarrow> 0 | Some c \<Rightarrow> c) + 1)"

definition stats_step :: "time \<Rightarrow> Stats \<Rightarrow> Todo \<Rightarrow> Stats" where
  "stats_step now stats todo =
     (let stats1 =
            (if Completed todo then stats\<lparr>stats_completed := stats_completed stats + 1\<rparr>
             else (let stats0 = stats\<lparr>stats_pending := stats_pending stats + 1\<rparr>
                   in if \<not> time_IsZero (DueDate todo) \<and> time_Before (DueDate todo) now
                      then stats0\<lparr>stats_overdue := stats_overdue stats0 + 1\<rparr> else stats0));
          stats2 = stats1\<lparr>stats_by_priority := map_incr (stats_by_priority stats1) (Priority todo)\<rparr>
      in if Category todo \<noteq> []
         then stats2\<lparr>stats_by_category := map_incr (stats_by_category stats2) (Category todo)\<rparr>
         else stats2)"

definition GetStats :: "int list \<Rightarrow> time \<Rightarrow> MemoryStore \<Rightarrow> error + Stats" where
  "GetStats ks now s =
     (let stats = \<lparr>stats_total = int (card (dom (todos s))), stats_completed = 0,
                   stats_pending = 0, stats_overdue = 0,
                   stats_by_priority = Map.empty, stats_by_category = Map.empty\<rparr>
      in Inr (foldl (stats_step now) stats (range_values (todos s) ks)))"


section \<open>Sequences of store operations\<close>

datatype store_op =
    OpCreate TodoRequest time
  | OpUpdate int TodoRequest time
  | OpDelete int
  | OpGetAll
  | OpGet int
  | OpSearch string string "bool option"
  | OpStats

text \<open>
  One call on the store: the new store and, for a \<^verbatim>\<open>CreateTodo\<close>, the id of the record
  it returned. The four reading operations (\<^verbatim>\<open>GetAllTodos\<close>, \<^verbatim>\<open>GetTodoByID\<close>,
  \<^verbatim>\<open>SearchTodos\<close>, \<^verbatim>\<open>GetStats\<close>) assign to no field of the store and leave it as it is.
\<close>

fun apply_op :: "store_op \<Rightarrow> MemoryStore \<Rightarrow> int option \<times> MemoryStore" where
  "apply_op (OpCreate req now) s =
     (case CreateTodo req now s of
        (Inr todo, s') \<Rightarrow> (Some (ID todo), s')
      | (Inl e, s') \<Rightarrow> (None, s'))"
| "apply_op (OpUpdate id0 req now) s = (None, snd (UpdateTodo id0 req now s))"
| "apply_op (OpDelete id0) s = (None, snd (DeleteTodo id0 s))"
| "apply_op OpGetAll s = (None, s)"
| "apply_op (OpGet id0) s = (None, s)"
| "apply_op (OpSearch query category completed) s = (None, s)"
| "apply_op OpStats s = (None, s)"

fun run :: "MemoryStore \<Rightarrow> store_op list \<Rightarrow> MemoryStore" where
  "run s [] = s"
| "run s (op # ops) = run (snd (apply_op op s)) ops"

fun created_ids :: "MemoryStore \<Rightarrow> store_op list \<Rightarrow> int list" where
  "created_ids s [] = []"
| "created_ids s (op # ops) =
     (case apply_op op s of
        (Some i, s') \<Rightarrow> i # created_ids s' ops
      | (None, s') \<Rightarrow> created_ids s' ops)"

fun is_create :: "store_op \<Rightarrow> bool" where
  "is_create (OpCreate req now) = True"
| "is_create _ = False"

text \<open>
  The invariant of the store's ids: the counter is a Go \<^verbatim>\<open>int\<close>, and every key is the id
  of its record and lies below the counter.
\<close>

definition store_inv :: "MemoryStore \<Rightarrow> bool" where
  "store_inv s \<longleftrightarrow>
     go_int_min \<le> nextID s \<and> nextID s \<le> go_int_max \<and>
     (\<forall>k t. todos s k = Some t \<longrightarrow> ID t = k \<and> k < nextID s)"

text \<open>The records held by the store, one for each key.\<close>

definition stored :: "MemoryStore \<Rightarrow> Todo multiset" where
  "stored s = image_mset (\<lambda>k. the (todos s k)) (mset_set (dom (todos s)))"

text \<open>
  The clock along a sequence of operations: \<open>clock_monotone c ops\<close> says that the
  readings of \<^verbatim>\<open>time.Now()\<close> taken by the operations never go back, starting from the
  reading \<open>c\<close>; \<open>final_clock\<close> is the last reading. \<open>stamps_le c s\<close> says that no
  record of the store has an \<^verbatim>\<open>UpdatedAt\<close> later than \<open>c\<close> or before its \<^verbatim>\<open>CreatedAt\<close>.
\<close>

fun op_clock :: "store_op \<Rightarrow> time option" where
  "op_clock (OpCreate req now) = Some now"
| "op_clock (OpUpdate id0 req now) = Some now"
| "op_clock _ = None"

fun clock_monotone :: "time \<Rightarrow> store_op list \<Rightarrow> bool" where
  "clock_monotone c [] = True"
| "clock_monotone c (op # ops) =
     (case op_clock op of
        None \<Rightarrow> clock_monotone c ops
      | Some now \<Rightarrow> c \<le> now \<and> clock_monotone now ops)"

fun final_clock :: "time \<Rightarrow> store_op list \<Rightarrow> time" where
  "final_clock c [] = c"
| "final_clock c (op # ops) =
     (case op_clock op of
        None \<Rightarrow> final_clock c ops
      | Some now \<Rightarrow> final_clock now ops)"

definition stamps_le :: "time \<Rightarrow> MemoryStore \<Rightarrow> bool" where
  "stamps_le c s \<longleftrightarrow>
     (\<forall>k t. todos s k = Some t \<longrightarrow> CreatedAt t \<le> UpdatedAt t \<and> UpdatedAt t \<le> c)"

text \<open>A request used to run the operations: the title "Buy milk", every other field at its zero value.\<close>

abbreviation buy_milk :: TodoRequest where
  "buy_milk \<equiv> \<lparr>req_Title = ''Buy milk'', req_Description = [], req_Completed = False,
     req_Priority = 0, req_Category = [], req_DueDate = 0\<rparr>"


section \<open>Auxiliary facts\<close>

subsection \<open>Integers and strings\<close>

lemma go_int_wrap_id: "go_int_min \<le> x \<Longrightarrow> x \<le> go_int_max \<Longrightarrow> go_int_wrap x = x"
  by (simp add: go_int_wrap_def go_int_max_def go_int_min_def)

lemma has_prefix_iff: "has_prefix s sub \<longleftrightarrow> (\<exists>r. s = sub @ r)"
  by (induction s sub rule: has_prefix.induct) auto

lemma strings_Contains_iff: "strings_Contains s sub \<longleftrightarrow> (\<exists>p r. s = p @ sub @ r)"
proof (induction s)
  case Nil
  then show ?case by auto
next
  case (Cons d ds)
  show ?case
  proof
    assume "strings_Contains (d # ds) sub"
    then consider "has_prefix (d # ds) sub" | "strings_Contains ds sub" by auto
    then show "\<exists>p r. d # ds = p @ sub @ r"
    proof cases
      case 1
      then obtain r where "d # ds = sub @ r" unfolding has_prefix_iff by blast
      then have "d # ds = [] @ sub @ r" by simp
      then show ?thesis by blast
    next
      case 2
      then obtain p r where "ds = p @ sub @ r" using Cons.IH by blast
      then have "d # ds = (d # p) @ sub @ r" by simp
      then show ?thesis by blast
    qed
  next
    assume "\<exists>p r. d # ds = p @ sub @ r"
    then obtain p r where eq: "d # ds = p @ sub @ r" by blast
    show "strings_Contains (d # ds) sub"
    proof (cases p)
      case Nil
      then have "has_prefix (d # ds) sub" using eq unfolding has_prefix_iff by auto
      then show ?thesis by simp
    next
      case (Cons a p')
      then have "ds = p' @ sub @ r" using eq by simp
      then have "strings_Contains ds sub" using Cons.IH by blast
      then show ?thesis by simp
    qed
  qed
qed

lemma search_matches_iff:
  "search_matches query category completed t \<longleftrightarrow>
     (query = [] \<or> (\<exists>p r. Title t = p @ query @ r) \<or> (\<exists>p r. Description t = p @ query @ r)) \<and>
     (category = [] \<or> Category t = category) \<and>
     (completed = None \<or> completed = Some (Completed t))"
  by (cases completed) (auto simp: search_matches_def strings_Contains_iff)

subsection \<open>Sorting\<close>

lemma mset_place_by: "mset (place_by lt x xs) = add_mset x (mset xs)"
  by (induction xs) auto

lemma mset_sort_by_less: "mset (sort_by_less lt xs) = mset xs"
  by (induction xs) (auto simp: mset_place_by)

lemma set_place_by: "set (place_by lt x xs) = insert x (set xs)"
  by (induction xs) auto

lemma sorted_place_by:
  assumes ord: "less_transitive_ordering lt"
  shows "sorted_wrt (\<lambda>a b. \<not> lt b a) xs \<Longrightarrow> sorted_wrt (\<lambda>a b. \<not> lt b a) (place_by lt x xs)"
proof (induction xs)
  case Nil
  then show ?case by simp
next
  case (Cons y ys)
  have irr: "\<not> lt a a" for a using ord unfolding less_transitive_ordering_def by blast
  have tr: "lt a b \<Longrightarrow> lt b c \<Longrightarrow> lt a c" for a b c
    using ord unfolding less_transitive_ordering_def by blast
  show ?case
  proof (cases "lt x y")
    case True
    have "\<not> lt z x" if "z \<in> set ys" for z
    proof
      assume "lt z x"
      then have "lt z y" using True tr by blast
      then show False using Cons.prems that by auto
    qed
    moreover have "\<not> lt y x" using True tr irr by blast
    ultimately show ?thesis using True Cons.prems by auto
  next
    case False
    then show ?thesis using Cons by (auto simp: set_place_by)
  qed
qed

lemma sorted_sort_by_less:
  "less_transitive_ordering lt \<Longrightarrow> sorted_wrt (\<lambda>a b. \<not> lt b a) (sort_by_less lt xs)"
  by (induction xs) (auto intro: sorted_place_by)

lemma sort_by_less_contract: "sort_Slice_contract sort_by_less"
  unfolding sort_Slice_contract_def by (simp add: mset_sort_by_less sorted_sort_by_less)

lemma created_less_ordering:
  "less_transitive_ordering (\<lambda>a b. time_After (CreatedAt a) (CreatedAt b))"
  unfolding less_transitive_ordering_def time_After_def by auto

lemma search_less_ordering: "less_transitive_ordering search_less"
  unfolding less_transitive_ordering_def search_less_def time_After_def
  by (auto split: if_splits)

subsection \<open>Ranging over the map\<close>

lemma foldl_append_each: "foldl (\<lambda>acc x. acc @ [x]) acc0 xs = acc0 @ xs"
  by (induction xs arbitrary: acc0) auto

lemma foldl_append_if: "foldl (\<lambda>acc x. if P x then acc @ [x] else acc) acc0 xs = acc0 @ filter P xs"
  by (induction xs arbitrary: acc0) auto

lemma range_values_map:
  "set ks \<subseteq> dom m \<Longrightarrow> range_values m ks = map (\<lambda>k. the (m k)) ks"
  by (induction ks) auto

lemma mset_range_values:
  assumes "range_order s ks"
  shows "mset (range_values (todos s) ks) = stored s"
proof -
  have "range_values (todos s) ks = map (\<lambda>k. the (todos s k)) ks"
    using assms by (intro range_values_map) (simp add: range_order_def)
  moreover have "mset ks = mset_set (dom (todos s))"
    using assms by (metis mset_set_set range_order_def)
  ultimately show ?thesis by (simp add: stored_def)
qed

lemma range_order_card: "range_order s ks \<Longrightarrow> card (dom (todos s)) = length ks"
  by (metis distinct_card range_order_def)

lemma size_filter_stored:
  "range_order s ks \<Longrightarrow>
     size (filter_mset P (stored s)) = length (filter P (range_values (todos s) ks))"
  by (metis mset_filter mset_range_values size_mset)

lemma set_stored:
  "range_order s ks \<Longrightarrow> set_mset (stored s) = set (range_values (todos s) ks)"
  by (metis mset_range_values set_mset_mset)

lemma GetAllTodos_result:
  "GetAllTodos srt ks s =
     Inr (srt (\<lambda>a b. time_After (CreatedAt a) (CreatedAt b)) (range_values (todos s) ks))"
  by (simp add: GetAllTodos_def foldl_append_each)

subsection \<open>The freshly constructed store\<close>

lemma store_inv_NewMemoryStore: "store_inv (NewMemoryStore now)"
  by (simp add: store_inv_def NewMemoryStore_def Seed_def go_int_min_def go_int_max_def)

lemma nextID_NewMemoryStore: "nextID (NewMemoryStore now) = 4"
  by (simp add: NewMemoryStore_def Seed_def)

lemma range_order_NewMemoryStore: "range_order (NewMemoryStore now) [1, 2, 3]"
  by (auto simp: range_order_def NewMemoryStore_def Seed_def)

lemma stamps_le_NewMemoryStore: "stamps_le now (NewMemoryStore now)"
  by (simp add: stamps_le_def NewMemoryStore_def Seed_def time_Add_def time_Hour_def)

subsection \<open>Steps and runs\<close>

lemma apply_op_create:
  assumes "store_inv s" "nextID s < go_int_max"
  shows "apply_op (OpCreate req now) s =
    (Some (nextID s),
     s\<lparr>todos := (todos s)(nextID s \<mapsto>
         \<lparr>ID = nextID s, Title = req_Title req, Description = req_Description req,
          Completed = req_Completed req, Priority = req_Priority req,
          Category = req_Category req, DueDate = req_DueDate req,
          CreatedAt = now, UpdatedAt = now\<rparr>),
       nextID := nextID s + 1\<rparr>)"
proof -
  have "go_int_min \<le> nextID s + 1" "nextID s + 1 \<le> go_int_max"
    using assms unfolding store_inv_def by auto
  then have wrap: "go_int_wrap (nextID s + 1) = nextID s + 1" by (rule go_int_wrap_id)
  show ?thesis using wrap by (simp add: CreateTodo_def Let_def)
qed

lemma apply_op_not_create:
  "\<not> is_create op \<Longrightarrow> fst (apply_op op s) = None \<and> nextID (snd (apply_op op s)) = nextID s"
  by (cases op) (auto simp: UpdateTodo_def DeleteTodo_def Let_def split: option.splits)

lemma store_inv_not_create:
  "\<not> is_create op \<Longrightarrow> store_inv s \<Longrightarrow> store_inv (snd (apply_op op s))"
  by (cases op)
    (auto simp: UpdateTodo_def DeleteTodo_def FromRequest_def Let_def store_inv_def
      split: option.splits)

lemma store_inv_create:
  assumes "store_inv s" "nextID s < go_int_max"
  shows "store_inv (snd (apply_op (OpCreate req now) s))"
  unfolding apply_op_create[OF assms] using assms
  by (auto simp: store_inv_def intro: less_imp_le)

lemma run_append: "run s (xs @ ys) = run (run s xs) ys"
  by (induction xs arbitrary: s) auto

text \<open>
  As long as the counter stays within a Go \<^verbatim>\<open>int\<close>, a run returns the consecutive
  values of the counter and keeps the invariant.
\<close>

lemma run_created_ids:
  "store_inv s \<Longrightarrow> nextID s + int (length (filter is_create ops)) \<le> go_int_max \<Longrightarrow>
     created_ids s ops = map (\<lambda>n. nextID s + int n) [0 ..< length (filter is_create ops)] \<and>
     store_inv (run s ops) \<and>
     nextID (run s ops) = nextID s + int (length (filter is_create ops))"
proof (induction ops arbitrary: s)
  case Nil
  then show ?case by simp
next
  case (Cons op ops)
  show ?case
  proof (cases "is_create op")
    case True
    then obtain req now where op: "op = OpCreate req now" by (cases op) auto
    have lt: "nextID s < go_int_max" using Cons.prems True by simp
    note ap = apply_op_create[OF Cons.prems(1) lt, of req now]
    have inv': "store_inv (snd (apply_op op s))"
      unfolding op by (rule store_inv_create[OF Cons.prems(1) lt])
    have nx: "nextID (snd (apply_op op s)) = nextID s + 1" unfolding op ap by simp
    have bound: "nextID (snd (apply_op op s)) + int (length (filter is_create ops)) \<le> go_int_max"
      using Cons.prems(2) True nx by simp
    note IH = Cons.IH[OF inv' bound]
    have "created_ids s (op # ops) = nextID s # created_ids (snd (apply_op op s)) ops"
      unfolding op by (simp add: ap del: apply_op.simps)
    then show ?thesis using IH nx True
      by (simp add: map_upt_Suc del: upt_Suc)
  next
    case False
    note nc = apply_op_not_create[OF False, of s]
    have inv': "store_inv (snd (apply_op op s))"
      by (rule store_inv_not_create[OF False Cons.prems(1)])
    have bound: "nextID (snd (apply_op op s)) + int (length (filter is_create ops)) \<le> go_int_max"
      using Cons.prems(2) False nc by simp
    note IH = Cons.IH[OF inv' bound]
    have "created_ids s (op # ops) = created_ids (snd (apply_op op s)) ops"
      using nc by (cases "apply_op op s") simp
    then show ?thesis using IH nc False by simp
  qed
qed

text \<open>
  While the clock does not go back, no record has an \<^verbatim>\<open>UpdatedAt\<close> later than the
  clock, and \<^verbatim>\<open>UpdatedAt\<close> is never before \<^verbatim>\<open>CreatedAt\<close>.
\<close>

lemma stamps_le_mono: "stamps_le c s \<Longrightarrow> c \<le> c' \<Longrightarrow> stamps_le c' s"
  unfolding stamps_le_def by (meson order_trans)

lemma stamps_le_apply_op:
  assumes "stamps_le c s"
  shows "case op_clock op of
           None \<Rightarrow> stamps_le c (snd (apply_op op s))
         | Some now \<Rightarrow> c \<le> now \<longrightarrow> stamps_le now (snd (apply_op op s))"
proof (cases op)
  case (OpCreate req now)
  show ?thesis
  proof (simp add: OpCreate, intro impI)
    assume "c \<le> now"
    then have "stamps_le now s" using assms stamps_le_mono by blast
    then show "stamps_le now (snd (case CreateTodo req now s of (Inl e, s') \<Rightarrow> (None, s')
            | (Inr todo, s') \<Rightarrow> (Some (ID todo), s')))"
      by (simp add: CreateTodo_def Let_def stamps_le_def)
  qed
next
  case (OpUpdate i req now)
  show ?thesis
  proof (simp add: OpUpdate, intro impI)
    assume "c \<le> now"
    then have "stamps_le now s" using assms stamps_le_mono by blast
    then show "stamps_le now (snd (UpdateTodo i req now s))"
      by (auto simp: UpdateTodo_def FromRequest_def Let_def stamps_le_def split: option.splits
          intro: order_trans)
  qed
next
  case (OpDelete i)
  then show ?thesis using assms
    by (auto simp: DeleteTodo_def stamps_le_def split: option.splits)
qed (use assms in simp_all)

lemma stamps_le_run:
  "stamps_le c s \<Longrightarrow> clock_monotone c ops \<Longrightarrow> stamps_le (final_clock c ops) (run s ops)"
proof (induction ops arbitrary: c s)
  case Nil
  then show ?case by simp
next
  case (Cons op ops)
  note step = stamps_le_apply_op[OF Cons.prems(1), of op]
  show ?case
  proof (cases "op_clock op")
    case None
    then show ?thesis using Cons step by (simp del: apply_op.simps)
  next
    case (Some now)
    then show ?thesis using Cons step by (simp del: apply_op.simps)
  qed
qed


section \<open>Identifier assignment\<close>

text \<open>
  C1. On a newly constructed store, for every sequence of operations (creates, updates,
  deletes and reads in any order) whose creates do not exhaust the 64-bit counter, the ids
  returned by the successive \<^verbatim>\<open>CreateTodo\<close> calls are 4, 5, 6, ...: they are strictly
  increasing and never repeat, and an id that a \<^verbatim>\<open>DeleteTodo\<close> has removed is not returned
  by any later \<^verbatim>\<open>CreateTodo\<close>.
\<close>

theorem create_ids_strictly_increasing:
  assumes "int (length (filter is_create ops)) \<le> go_int_max - 4"
  shows "created_ids (NewMemoryStore now0) ops =
           map (\<lambda>n. 4 + int n) [0 ..< length (filter is_create ops)] \<and>
         sorted_wrt (<) (created_ids (NewMemoryStore now0) ops) \<and>
         distinct (created_ids (NewMemoryStore now0) ops) \<and>
         (\<forall>pre k post.
            ops = pre @ OpDelete k # post \<and> k \<in> dom (todos (run (NewMemoryStore now0) pre))
            \<longrightarrow> k \<notin> set (created_ids (run (NewMemoryStore now0) (pre @ [OpDelete k])) post))"
proof -
  let ?s = "NewMemoryStore now0"
  have inv: "store_inv ?s" by (rule store_inv_NewMemoryStore)
  have nx: "nextID ?s = 4" by (rule nextID_NewMemoryStore)
  have bound: "nextID ?s + int (length (filter is_create ops)) \<le> go_int_max"
    using assms nx by simp
  have ids: "created_ids ?s ops = map (\<lambda>n. 4 + int n) [0 ..< length (filter is_create ops)]"
    using run_created_ids[OF inv bound] nx by simp
  have sorted: "sorted_wrt (<) (created_ids ?s ops)"
    unfolding ids by (simp add: sorted_wrt_map sorted_wrt_iff_nth_less)
  have dist: "distinct (created_ids ?s ops)"
    unfolding ids by (simp add: distinct_map inj_on_def)
  have never: "k \<notin> set (created_ids (run ?s (pre @ [OpDelete k])) post)"
    if split: "ops = pre @ OpDelete k # post" and present: "k \<in> dom (todos (run ?s pre))"
    for pre k post
  proof -
    let ?s1 = "run ?s pre"
    let ?s2 = "run ?s (pre @ [OpDelete k])"
    have b1: "nextID ?s + int (length (filter is_create pre)) \<le> go_int_max"
      using bound split by simp
    note r1 = run_created_ids[OF inv b1]
    have inv1: "store_inv ?s1"
      and nx1: "nextID ?s1 = nextID ?s + int (length (filter is_create pre))"
      using r1 by simp_all
    have klt: "k < nextID ?s1" using present inv1 unfolding store_inv_def by auto
    have s2: "?s2 = snd (apply_op (OpDelete k) ?s1)" by (simp add: run_append)
    have inv2: "store_inv ?s2" unfolding s2 by (rule store_inv_not_create[OF _ inv1]) simp
    have nx2: "nextID ?s2 = nextID ?s1"
      unfolding s2 using apply_op_not_create[of "OpDelete k" ?s1] by simp
    have b2: "nextID ?s2 + int (length (filter is_create post)) \<le> go_int_max"
      using bound split nx2 nx1 by simp
    have "created_ids ?s2 post =
            map (\<lambda>n. nextID ?s2 + int n) [0 ..< length (filter is_create post)]"
      using run_created_ids[OF inv2 b2] by simp
    then show ?thesis using klt nx2 by auto
  qed
  show ?thesis using ids sorted dist never by blast
qed

text \<open>The run create, delete 4, create returns the ids 4 and 5: the deleted 4 is not given out again.\<close>

theorem create_ids_strictly_increasing_witness:
  "int (length (filter is_create [OpCreate buy_milk 10, OpDelete 4, OpCreate buy_milk 20]))
     \<le> go_int_max - 4 \<and>
   created_ids (NewMemoryStore 0) [OpCreate buy_milk 10, OpDelete 4, OpCreate buy_milk 20] = [4, 5] \<and>
   4 \<in> dom (todos (run (NewMemoryStore 0) [OpCreate buy_milk 10])) \<and>
   4 \<notin> set (created_ids (run (NewMemoryStore 0) ([OpCreate buy_milk 10] @ [OpDelete 4]))
              [OpCreate buy_milk 20])"
proof -
  let ?ops = "[OpCreate buy_milk 10, OpDelete 4, OpCreate buy_milk 20]"
  have h: "int (length (filter is_create ?ops)) \<le> go_int_max - 4"
    by (simp add: go_int_max_def)
  have p: "4 \<in> dom (todos (run (NewMemoryStore 0) [OpCreate buy_milk 10]))"
    by (simp add: CreateTodo_def Let_def NewMemoryStore_def Seed_def)
  have sp: "?ops = [OpCreate buy_milk 10] @ OpDelete 4 # [OpCreate buy_milk 20]" by simp
  note th = create_ids_strictly_increasing[OF h, of 0]
  have ids: "created_ids (NewMemoryStore 0) ?ops = [4, 5]"
    using th by (simp add: upt_rec)
  have nv: "4 \<notin> set (created_ids (run (NewMemoryStore 0) ([OpCreate buy_milk 10] @ [OpDelete 4]))
              [OpCreate buy_milk 20])"
    using th sp p by blast
  show ?thesis using h ids p nv by blast
qed


section \<open>Create\<close>

text \<open>
  C2, as the code has it. On a store whose keys lie below its counter, \<^verbatim>\<open>CreateTodo\<close>
  returns without error a record whose id is the counter's value, an id that no stored
  record has and that is above every id in use; the counter moves on by one; the record
  carries the fields of the request and the same current time as \<^verbatim>\<open>CreatedAt\<close> and
  \<^verbatim>\<open>UpdatedAt\<close>; it is stored under its id, and \<^verbatim>\<open>GetTodoByID\<close> with the returned id
  gives the same record back. The counter does not start at 1 for \<^verbatim>\<open>CreateTodo\<close>: a newly
  constructed store has its keys below its counter, its counter stands at 4, and the first
  \<^verbatim>\<open>CreateTodo\<close> on it returns id 4.
\<close>

theorem create_todo_assigns_and_stores:
  assumes "store_inv s" and "nextID s < go_int_max"
  shows "(\<exists>t s'. CreateTodo req now s = (Inr t, s') \<and>
     ID t = nextID s \<and> todos s (ID t) = None \<and> (\<forall>k\<in>dom (todos s). k < ID t) \<and>
     nextID s' = nextID s + 1 \<and>
     Title t = req_Title req \<and> Description t = req_Description req \<and>
     Completed t = req_Completed req \<and> Priority t = req_Priority req \<and>
     Category t = req_Category req \<and> DueDate t = req_DueDate req \<and>
     CreatedAt t = now \<and> UpdatedAt t = CreatedAt t \<and>
     todos s' = (todos s)(ID t \<mapsto> t) \<and>
     GetTodoByID (ID t) s' = Inr t) \<and>
   store_inv (NewMemoryStore now0) \<and> nextID (NewMemoryStore now0) = 4 \<and>
   (\<exists>t s'. CreateTodo req now (NewMemoryStore now0) = (Inr t, s') \<and> ID t = 4 \<and>
      nextID s' = 5)"
proof -
  have free: "todos s (nextID s) = None" using assms(1) unfolding store_inv_def
    by (cases "todos s (nextID s)") auto
  have below: "\<forall>k\<in>dom (todos s). k < nextID s" using assms(1) unfolding store_inv_def by auto
  have "go_int_min \<le> nextID s + 1" "nextID s + 1 \<le> go_int_max"
    using assms unfolding store_inv_def by auto
  then have wrap: "go_int_wrap (nextID s + 1) = nextID s + 1" by (rule go_int_wrap_id)
  have general: "\<exists>t s'. CreateTodo req now s = (Inr t, s') \<and>
     ID t = nextID s \<and> todos s (ID t) = None \<and> (\<forall>k\<in>dom (todos s). k < ID t) \<and>
     nextID s' = nextID s + 1 \<and>
     Title t = req_Title req \<and> Description t = req_Description req \<and>
     Completed t = req_Completed req \<and> Priority t = req_Priority req \<and>
     Category t = req_Category req \<and> DueDate t = req_DueDate req \<and>
     CreatedAt t = now \<and> UpdatedAt t = CreatedAt t \<and>
     todos s' = (todos s)(ID t \<mapsto> t) \<and>
     GetTodoByID (ID t) s' = Inr t"
    using free below wrap by (simp add: CreateTodo_def Let_def GetTodoByID_def)
  have inv0: "store_inv (NewMemoryStore now0)" by (rule store_inv_NewMemoryStore)
  have nx0: "nextID (NewMemoryStore now0) = 4" by (rule nextID_NewMemoryStore)
  have "go_int_wrap (4 + 1) = 5" by (simp add: go_int_wrap_def)
  then have first: "\<exists>t s'. CreateTodo req now (NewMemoryStore now0) = (Inr t, s') \<and> ID t = 4 \<and>
      nextID s' = 5"
    using nx0 by (simp add: CreateTodo_def Let_def)
  show ?thesis using general inv0 nx0 first by blast
qed

text \<open>Creating "Buy milk" on a new store at time 10 gives id 4, and fetching id 4 gives the record.\<close>

theorem create_todo_assigns_and_stores_witness:
  "store_inv (NewMemoryStore 0) \<and> nextID (NewMemoryStore 0) < go_int_max \<and>
   (\<exists>t s'. CreateTodo buy_milk 10 (NewMemoryStore 0) = (Inr t, s') \<and> ID t = 4 \<and>
      Title t = ''Buy milk'' \<and> Completed t = False \<and> CreatedAt t = 10 \<and>
      UpdatedAt t = CreatedAt t \<and> GetTodoByID 4 s' = Inr t)"
proof -
  have i: "store_inv (NewMemoryStore 0)" by (rule store_inv_NewMemoryStore)
  have n: "nextID (NewMemoryStore 0) = 4" by (rule nextID_NewMemoryStore)
  then have b: "nextID (NewMemoryStore 0) < go_int_max" by (simp add: go_int_max_def)
  obtain t s' where r: "CreateTodo buy_milk 10 (NewMemoryStore 0) = (Inr t, s')"
     "ID t = nextID (NewMemoryStore 0)" "Title t = req_Title buy_milk"
     "Completed t = req_Completed buy_milk" "CreatedAt t = 10" "UpdatedAt t = CreatedAt t"
     "GetTodoByID (ID t) s' = Inr t"
    using create_todo_assigns_and_stores[OF i b, of buy_milk 10] by blast
  then show ?thesis using i b n by simp
qed

text \<open>
  On a newly constructed store the counter is 4, not 1, and the first \<^verbatim>\<open>CreateTodo\<close>
  returns id 4, not id 1.
\<close>

theorem first_create_id_is_not_one:
  "nextID (NewMemoryStore 0) = 4 \<and> nextID (NewMemoryStore 0) \<noteq> 1 \<and>
   map_sum id ID (fst (CreateTodo buy_milk 10 (NewMemoryStore 0))) = Inr 4 \<and>
   map_sum id ID (fst (CreateTodo buy_milk 10 (NewMemoryStore 0))) \<noteq> Inr 1"
  by (simp add: CreateTodo_def Let_def NewMemoryStore_def Seed_def)


section \<open>Update\<close>

text \<open>
  C3. For every id present in the store and every request, at a time not before the
  record's last stamp, \<^verbatim>\<open>UpdateTodo\<close> returns without error the record with title,
  description, completed flag, priority, category and due date taken from the request, none
  kept from the old record, with \<^verbatim>\<open>UpdatedAt\<close> set to the current time, which is at least
  the previous \<^verbatim>\<open>UpdatedAt\<close>, and with id and \<^verbatim>\<open>CreatedAt\<close> unchanged; the store holds
  the new record under the same id.
\<close>

theorem update_todo_replaces_fields:
  assumes "todos s i = Some old" and "UpdatedAt old \<le> now"
  shows "\<exists>new s'. UpdateTodo i req now s = (Inr new, s') \<and>
     Title new = req_Title req \<and> Description new = req_Description req \<and>
     Completed new = req_Completed req \<and> Priority new = req_Priority req \<and>
     Category new = req_Category req \<and> DueDate new = req_DueDate req \<and>
     UpdatedAt new = now \<and> UpdatedAt old \<le> UpdatedAt new \<and>
     ID new = ID old \<and> CreatedAt new = CreatedAt old \<and>
     todos s' = (todos s)(i \<mapsto> new) \<and> nextID s' = nextID s"
  using assms by (simp add: UpdateTodo_def FromRequest_def Let_def)

text \<open>Updating the seeded record 1 of a new store at time 5 with the request "Buy milk".\<close>

theorem update_todo_replaces_fields_witness:
  "todos (NewMemoryStore 0) 1 = Some (the (todos (NewMemoryStore 0) 1)) \<and>
   UpdatedAt (the (todos (NewMemoryStore 0) 1)) \<le> 5 \<and>
   (\<exists>new s'. UpdateTodo 1 buy_milk 5 (NewMemoryStore 0) = (Inr new, s') \<and>
      Title new = ''Buy milk'' \<and> Description new = [] \<and> UpdatedAt new = 5 \<and> ID new = 1 \<and>
      todos s' = (todos (NewMemoryStore 0))(1 \<mapsto> new))"
proof -
  let ?old = "the (todos (NewMemoryStore 0) 1)"
  have a: "todos (NewMemoryStore 0) 1 = Some ?old" by (simp add: NewMemoryStore_def Seed_def)
  have b: "UpdatedAt ?old \<le> 5"
    by (simp add: NewMemoryStore_def Seed_def time_Add_def time_Hour_def)
  have c: "ID ?old = 1" by (simp add: NewMemoryStore_def Seed_def)
  obtain new s' where r: "UpdateTodo 1 buy_milk 5 (NewMemoryStore 0) = (Inr new, s')"
     "Title new = req_Title buy_milk" "Description new = req_Description buy_milk"
     "UpdatedAt new = 5" "ID new = ID ?old"
     "todos s' = (todos (NewMemoryStore 0))(1 \<mapsto> new)"
    using update_todo_replaces_fields[OF a b, of buy_milk] by blast
  then show ?thesis using a b c by simp
qed


section \<open>Not found\<close>

text \<open>
  C4. For every id, each of \<^verbatim>\<open>GetTodoByID\<close>, \<^verbatim>\<open>UpdateTodo\<close> and \<^verbatim>\<open>DeleteTodo\<close> fails with
  \<^verbatim>\<open>ErrTodoNotFound\<close> exactly when the store has no record under that id, and succeeds
  otherwise; after a \<^verbatim>\<open>DeleteTodo\<close> of an id, \<^verbatim>\<open>GetTodoByID\<close> and a second
  \<^verbatim>\<open>DeleteTodo\<close> of that id fail with \<^verbatim>\<open>ErrTodoNotFound\<close>; a failed \<^verbatim>\<open>UpdateTodo\<close> or
  \<^verbatim>\<open>DeleteTodo\<close> leaves the store as it was.
\<close>

theorem not_found_iff_absent:
  "(GetTodoByID i s = Inl ErrTodoNotFound \<longleftrightarrow> todos s i = None) \<and>
   (fst (UpdateTodo i req now s) = Inl ErrTodoNotFound \<longleftrightarrow> todos s i = None) \<and>
   (fst (DeleteTodo i s) = Some ErrTodoNotFound \<longleftrightarrow> todos s i = None) \<and>
   (todos s i \<noteq> None \<longrightarrow>
      (\<exists>t. GetTodoByID i s = Inr t) \<and> (\<exists>t. fst (UpdateTodo i req now s) = Inr t) \<and>
      fst (DeleteTodo i s) = None) \<and>
   GetTodoByID i (snd (DeleteTodo i s)) = Inl ErrTodoNotFound \<and>
   fst (DeleteTodo i (snd (DeleteTodo i s))) = Some ErrTodoNotFound \<and>
   (todos s i = None \<longrightarrow> snd (UpdateTodo i req now s) = s \<and> snd (DeleteTodo i s) = s)"
  by (auto simp: GetTodoByID_def UpdateTodo_def DeleteTodo_def Let_def split: option.splits)

text \<open>On a new store id 7 is absent and id 2 is present.\<close>

theorem not_found_iff_absent_witness:
  "todos (NewMemoryStore 0) 7 = None \<and>
   snd (UpdateTodo 7 buy_milk 5 (NewMemoryStore 0)) = NewMemoryStore 0 \<and>
   snd (DeleteTodo 7 (NewMemoryStore 0)) = NewMemoryStore 0 \<and>
   todos (NewMemoryStore 0) 2 \<noteq> None \<and>
   (\<exists>t. GetTodoByID 2 (NewMemoryStore 0) = Inr t) \<and>
   fst (DeleteTodo 2 (NewMemoryStore 0)) = None \<and>
   GetTodoByID 2 (snd (DeleteTodo 2 (NewMemoryStore 0))) = Inl ErrTodoNotFound \<and>
   fst (DeleteTodo 2 (snd (DeleteTodo 2 (NewMemoryStore 0)))) = Some ErrTodoNotFound"
proof -
  have a: "todos (NewMemoryStore 0) 7 = None" by (simp add: NewMemoryStore_def Seed_def)
  have b: "todos (NewMemoryStore 0) 2 \<noteq> None" by (simp add: NewMemoryStore_def Seed_def)
  show ?thesis
    using a b not_found_iff_absent[of 7 "NewMemoryStore 0" buy_milk 5]
      not_found_iff_absent[of 2 "NewMemoryStore 0" buy_milk 5]
    by blast
qed


section \<open>Search\<close>

text \<open>
  C5. For every store, every order in which the map is ranged over, and every query,
  category and optional completed flag, \<^verbatim>\<open>SearchTodos\<close> returns without error exactly the
  stored records (each once) that satisfy every supplied criterion: a non-empty query must
  occur byte for byte as a substring of the title or of the description, a non-empty
  category must equal the record's category, and a non-nil completed flag must equal the
  record's; the result is ordered by priority descending and, within one priority, by
  \<^verbatim>\<open>CreatedAt\<close> descending.
\<close>

theorem search_todos_filtered_sorted:
  assumes "sort_Slice_contract srt" and "range_order s ks"
  shows "\<exists>r. SearchTodos srt ks query category completed s = Inr r \<and>
     mset r = {#t \<in># stored s.
        (query = [] \<or> (\<exists>p r. Title t = p @ query @ r) \<or> (\<exists>p r. Description t = p @ query @ r)) \<and>
        (category = [] \<or> Category t = category) \<and>
        (completed = None \<or> completed = Some (Completed t))#} \<and>
     sorted_wrt (\<lambda>a b. Priority a > Priority b \<or>
                        (Priority a = Priority b \<and> CreatedAt a \<ge> CreatedAt b)) r"
proof -
  let ?xs = "filter (search_matches query category completed) (range_values (todos s) ks)"
  have res: "SearchTodos srt ks query category completed s = Inr (srt search_less ?xs)"
    by (simp add: SearchTodos_def foldl_append_if)
  have perm: "mset (srt search_less ?xs) = mset ?xs"
    using assms(1) unfolding sort_Slice_contract_def by blast
  have "sorted_wrt (\<lambda>a b. \<not> search_less b a) (srt search_less ?xs)"
    using assms(1) search_less_ordering unfolding sort_Slice_contract_def by blast
  moreover have "(\<lambda>a b. \<not> search_less b a) = (\<lambda>a b. Priority a > Priority b \<or>
                        (Priority a = Priority b \<and> CreatedAt a \<ge> CreatedAt b))"
    by (auto simp: search_less_def time_After_def fun_eq_iff)
  ultimately have srt: "sorted_wrt (\<lambda>a b. Priority a > Priority b \<or>
                        (Priority a = Priority b \<and> CreatedAt a \<ge> CreatedAt b)) (srt search_less ?xs)"
    by simp
  have pred: "search_matches query category completed = (\<lambda>t.
        (query = [] \<or> (\<exists>p r. Title t = p @ query @ r) \<or> (\<exists>p r. Description t = p @ query @ r)) \<and>
        (category = [] \<or> Category t = category) \<and>
        (completed = None \<or> completed = Some (Completed t)))"
    by (rule ext) (rule search_matches_iff)
  have "mset ?xs = filter_mset (search_matches query category completed) (stored s)"
    using mset_range_values[OF assms(2)] by simp
  then have sel: "mset ?xs = {#t \<in># stored s.
        (query = [] \<or> (\<exists>p r. Title t = p @ query @ r) \<or> (\<exists>p r. Description t = p @ query @ r)) \<and>
        (category = [] \<or> Category t = category) \<and>
        (completed = None \<or> completed = Some (Completed t))#}"
    unfolding pred .
  show ?thesis unfolding res using perm srt sel by simp
qed

text \<open>
  On a new store, ranged over in the order 1, 2, 3: the query "Go" with the completed flag
  false finds record 1 only, and a search with no criterion lists the records 2, 1, 3, by
  their priorities 4, 3, 2.
\<close>

theorem search_todos_filtered_sorted_witness:
  "sort_Slice_contract (sort_by_less :: (Todo \<Rightarrow> Todo \<Rightarrow> bool) \<Rightarrow> Todo list \<Rightarrow> Todo list) \<and>
   range_order (NewMemoryStore 0) [1, 2, 3] \<and>
   (\<exists>r. SearchTodos sort_by_less [1, 2, 3] ''Go'' [] (Some False) (NewMemoryStore 0) = Inr r \<and>
      map ID r = [1] \<and>
      sorted_wrt (\<lambda>a b. Priority a > Priority b \<or>
                         (Priority a = Priority b \<and> CreatedAt a \<ge> CreatedAt b)) r) \<and>
   (\<exists>r. SearchTodos sort_by_less [1, 2, 3] [] [] None (NewMemoryStore 0) = Inr r \<and>
      map ID r = [2, 1, 3] \<and> mset r = stored (NewMemoryStore 0))"
proof -
  let ?s = "NewMemoryStore 0"
  have c: "sort_Slice_contract (sort_by_less :: (Todo \<Rightarrow> Todo \<Rightarrow> bool) \<Rightarrow> Todo list \<Rightarrow> Todo list)"
    by (rule sort_by_less_contract)
  have ro: "range_order ?s [1, 2, 3]" by (rule range_order_NewMemoryStore)
  obtain r1 where r1: "SearchTodos sort_by_less [1, 2, 3] ''Go'' [] (Some False) ?s = Inr r1"
    "sorted_wrt (\<lambda>a b. Priority a > Priority b \<or>
                         (Priority a = Priority b \<and> CreatedAt a \<ge> CreatedAt b)) r1"
    using search_todos_filtered_sorted[OF c ro, of "''Go''" "[]" "Some False"] by blast
  have "map ID (projr (SearchTodos sort_by_less [1, 2, 3] ''Go'' [] (Some False) ?s)) = [1]"
    by (simp add: SearchTodos_def search_matches_def search_less_def NewMemoryStore_def Seed_def)
  then have i1: "map ID r1 = [1]" using r1(1) by simp
  obtain r2 where r2: "SearchTodos sort_by_less [1, 2, 3] [] [] None ?s = Inr r2"
    "mset r2 = {#t \<in># stored ?s.
        (([]::string) = [] \<or> (\<exists>p r. Title t = p @ [] @ r) \<or> (\<exists>p r. Description t = p @ [] @ r)) \<and>
        (([]::string) = [] \<or> Category t = []) \<and>
        ((None::bool option) = None \<or> None = Some (Completed t))#}"
    using search_todos_filtered_sorted[OF c ro, of "[]" "[]" None] by blast
  have m2: "mset r2 = stored ?s" using r2(2) by simp
  have "map ID (projr (SearchTodos sort_by_less [1, 2, 3] [] [] None ?s)) = [2, 1, 3]"
    by (simp add: SearchTodos_def search_matches_def search_less_def NewMemoryStore_def Seed_def
        time_After_def time_Add_def time_Hour_def)
  then have i2: "map ID r2 = [2, 1, 3]" using r2(1) by simp
  show ?thesis using c ro r1 i1 r2(1) i2 m2 by simp
qed


section \<open>List all\<close>

text \<open>
  C6. For every store and every order in which the map is ranged over, \<^verbatim>\<open>GetAllTodos\<close>
  returns without error a list that holds every stored record exactly once, as many records
  as the map has keys, ordered by \<^verbatim>\<open>CreatedAt\<close> descending.
\<close>

theorem get_all_todos_sorted:
  assumes "sort_Slice_contract srt" and "range_order s ks"
  shows "\<exists>r. GetAllTodos srt ks s = Inr r \<and> mset r = stored s \<and>
     length r = card (dom (todos s)) \<and>
     sorted_wrt (\<lambda>a b. CreatedAt a \<ge> CreatedAt b) r"
proof -
  let ?lt = "\<lambda>a b. time_After (CreatedAt a) (CreatedAt b)"
  let ?xs = "range_values (todos s) ks"
  have res: "GetAllTodos srt ks s = Inr (srt ?lt ?xs)"
    by (rule GetAllTodos_result)
  have perm: "mset (srt ?lt ?xs) = mset ?xs"
    using assms(1) unfolding sort_Slice_contract_def by blast
  have "sorted_wrt (\<lambda>a b. \<not> ?lt b a) (srt ?lt ?xs)"
    using assms(1) created_less_ordering unfolding sort_Slice_contract_def by blast
  then have srt: "sorted_wrt (\<lambda>a b. CreatedAt a \<ge> CreatedAt b) (srt ?lt ?xs)"
    by (simp add: time_After_def not_less)
  have "length (srt ?lt ?xs) = length ?xs" using perm by (metis size_mset)
  also have "\<dots> = length ks" using assms(2)
    by (simp add: range_values_map range_order_def)
  finally have len: "length (srt ?lt ?xs) = card (dom (todos s))"
    using range_order_card[OF assms(2)] by simp
  show ?thesis using res perm srt len mset_range_values[OF assms(2)] by simp
qed

text \<open>
  A new store ranged over in the order 2, 3, 1 lists its records as 3, 1, 2: created one,
  two and three days before the store.
\<close>

theorem get_all_todos_sorted_witness:
  "sort_Slice_contract (sort_by_less :: (Todo \<Rightarrow> Todo \<Rightarrow> bool) \<Rightarrow> Todo list \<Rightarrow> Todo list) \<and>
   range_order (NewMemoryStore 0) [2, 3, 1] \<and>
   (\<exists>r. GetAllTodos sort_by_less [2, 3, 1] (NewMemoryStore 0) = Inr r \<and>
      mset r = stored (NewMemoryStore 0) \<and> length r = 3 \<and> map ID r = [3, 1, 2] \<and>
      sorted_wrt (\<lambda>a b. CreatedAt a \<ge> CreatedAt b) r)"
proof -
  have c: "sort_Slice_contract (sort_by_less :: (Todo \<Rightarrow> Todo \<Rightarrow> bool) \<Rightarrow> Todo list \<Rightarrow> Todo list)"
    by (rule sort_by_less_contract)
  have ro: "range_order (NewMemoryStore 0) [2, 3, 1]"
    by (auto simp: range_order_def NewMemoryStore_def Seed_def)
  have d: "card (dom (todos (NewMemoryStore 0))) = 3"
    using range_order_card[OF ro] by simp
  obtain r where r: "GetAllTodos sort_by_less [2, 3, 1] (NewMemoryStore 0) = Inr r"
    "mset r = stored (NewMemoryStore 0)" "length r = card (dom (todos (NewMemoryStore 0)))"
    "sorted_wrt (\<lambda>a b. CreatedAt a \<ge> CreatedAt b) r"
    using get_all_todos_sorted[OF c ro] by blast
  have "map ID (projr (GetAllTodos sort_by_less [2, 3, 1] (NewMemoryStore 0))) = [3, 1, 2]"
    by (simp add: GetAllTodos_def NewMemoryStore_def Seed_def time_After_def time_Add_def
        time_Hour_def)
  then have "map ID r = [3, 1, 2]" using r(1) by simp
  then show ?thesis using c ro r d by auto
qed


section \<open>Statistics\<close>

lemma stats_step_fields:
  "stats_total (stats_step now st t) = stats_total st"
  "stats_completed (stats_step now st t) = stats_completed st + (if Completed t then 1 else 0)"
  "stats_pending (stats_step now st t) = stats_pending st + (if Completed t then 0 else 1)"
  "stats_overdue (stats_step now st t) =
     stats_overdue st + (if \<not> Completed t \<and> DueDate t \<noteq> 0 \<and> DueDate t < now then 1 else 0)"
  "stats_by_priority (stats_step now st t) = map_incr (stats_by_priority st) (Priority t)"
  "stats_by_category (stats_step now st t) =
     (if Category t \<noteq> [] then map_incr (stats_by_category st) (Category t)
      else stats_by_category st)"
  by (simp_all add: stats_step_def Let_def time_IsZero_def time_Before_def)

lemma foldl_stats_total: "stats_total (foldl (stats_step now) st xs) = stats_total st"
  by (induction xs rule: rev_induct) (simp_all add: stats_step_fields)

lemma foldl_stats_completed:
  "stats_completed (foldl (stats_step now) st xs) =
     stats_completed st + int (length (filter Completed xs))"
  by (induction xs rule: rev_induct) (simp_all add: stats_step_fields)

lemma foldl_stats_pending:
  "stats_pending (foldl (stats_step now) st xs) =
     stats_pending st + int (length (filter (\<lambda>t. \<not> Completed t) xs))"
  by (induction xs rule: rev_induct) (simp_all add: stats_step_fields)

lemma foldl_stats_overdue:
  "stats_overdue (foldl (stats_step now) st xs) =
     stats_overdue st +
     int (length (filter (\<lambda>t. \<not> Completed t \<and> DueDate t \<noteq> 0 \<and> DueDate t < now) xs))"
  by (induction xs rule: rev_induct) (simp_all add: stats_step_fields)

lemma foldl_stats_by_priority:
  "stats_by_priority st = Map.empty \<Longrightarrow>
   stats_by_priority (foldl (stats_step now) st xs) p =
     (if \<exists>t\<in>set xs. Priority t = p
      then Some (int (length (filter (\<lambda>t. Priority t = p) xs))) else None)"
proof (induction xs rule: rev_induct)
  case Nil
  then show ?case by simp
next
  case (snoc x xs)
  then show ?case
    by (auto simp: stats_step_fields map_incr_def)
qed

lemma foldl_stats_by_category:
  "stats_by_category st = Map.empty \<Longrightarrow>
   stats_by_category (foldl (stats_step now) st xs) c =
     (if c \<noteq> [] \<and> (\<exists>t\<in>set xs. Category t = c)
      then Some (int (length (filter (\<lambda>t. Category t = c) xs))) else None)"
proof (induction xs rule: rev_induct)
  case Nil
  then show ?case by simp
next
  case (snoc x xs)
  then show ?case
    by (auto simp: stats_step_fields map_incr_def)
qed

text \<open>
  C7. For every store, every order in which the map is ranged over and every current time,
  \<^verbatim>\<open>GetStats\<close> returns without error: as total the number of stored records; as completed
  the number of records with the completed flag, as pending the number without it; as
  overdue the number of records that are not completed and have a non-zero due date before
  the current time; under every priority that some record has the number of records with
  that priority, and no entry for any other priority; under every non-empty category that
  some record has the number of records with that category, and no entry for the empty
  category or any other. On a store with no records the four counts are 0 and both maps
  are empty.
\<close>

theorem get_stats_counts:
  assumes "range_order s ks"
  shows "\<exists>st. GetStats ks now s = Inr st \<and>
     stats_total st = int (card (dom (todos s))) \<and>
     stats_total st = int (size (stored s)) \<and>
     stats_completed st = int (size {#t \<in># stored s. Completed t#}) \<and>
     stats_pending st = int (size {#t \<in># stored s. \<not> Completed t#}) \<and>
     stats_overdue st =
       int (size {#t \<in># stored s. \<not> Completed t \<and> DueDate t \<noteq> 0 \<and> DueDate t < now#}) \<and>
     (\<forall>p. stats_by_priority st p =
        (if \<exists>t\<in>#stored s. Priority t = p
         then Some (int (size {#t \<in># stored s. Priority t = p#})) else None)) \<and>
     (\<forall>c. stats_by_category st c =
        (if c \<noteq> [] \<and> (\<exists>t\<in>#stored s. Category t = c)
         then Some (int (size {#t \<in># stored s. Category t = c#})) else None)) \<and>
     (todos s = Map.empty \<longrightarrow>
        st = \<lparr>stats_total = 0, stats_completed = 0, stats_pending = 0, stats_overdue = 0,
              stats_by_priority = Map.empty, stats_by_category = Map.empty\<rparr>)"
proof -
  let ?init = "\<lparr>stats_total = int (card (dom (todos s))), stats_completed = 0, stats_pending = 0,
                 stats_overdue = 0, stats_by_priority = Map.empty, stats_by_category = Map.empty\<rparr>"
  let ?xs = "range_values (todos s) ks"
  let ?st = "foldl (stats_step now) ?init ?xs"
  note sz = size_filter_stored[OF assms]
  note st = set_stored[OF assms]
  have res: "GetStats ks now s = Inr ?st" by (simp add: GetStats_def)
  have f1: "stats_total ?st = int (card (dom (todos s)))" by (simp add: foldl_stats_total)
  have "size (stored s) = card (dom (todos s))" by (simp add: stored_def)
  then have f1a: "stats_total ?st = int (size (stored s))" using f1 by simp
  have f2: "stats_completed ?st = int (size {#t \<in># stored s. Completed t#})"
    by (simp add: foldl_stats_completed sz)
  have f3: "stats_pending ?st = int (size {#t \<in># stored s. \<not> Completed t#})"
    by (simp add: foldl_stats_pending sz)
  have f4: "stats_overdue ?st =
       int (size {#t \<in># stored s. \<not> Completed t \<and> DueDate t \<noteq> 0 \<and> DueDate t < now#})"
    by (simp add: foldl_stats_overdue sz)
  have f5: "stats_by_priority ?st p =
        (if \<exists>t\<in>#stored s. Priority t = p
         then Some (int (size {#t \<in># stored s. Priority t = p#})) else None)" for p
    by (simp add: foldl_stats_by_priority sz st)
  have f6: "stats_by_category ?st c =
        (if c \<noteq> [] \<and> (\<exists>t\<in>#stored s. Category t = c)
         then Some (int (size {#t \<in># stored s. Category t = c#})) else None)" for c
    by (simp add: foldl_stats_by_category sz st)
  have f7: "?st = \<lparr>stats_total = 0, stats_completed = 0, stats_pending = 0, stats_overdue = 0,
              stats_by_priority = Map.empty, stats_by_category = Map.empty\<rparr>"
    if "todos s = Map.empty"
  proof -
    have "ks = []" using assms that by (simp add: range_order_def)
    then show ?thesis using that by simp
  qed
  show ?thesis unfolding res using f1 f1a f2 f3 f4 f5 f6 f7 by blast
qed

text \<open>
  A new store, one hour on: three records, one completed, two pending, none overdue, one
  record under priority 4 and none under priority 1. A store with no records: all zero.
\<close>

theorem get_stats_counts_witness:
  "range_order (NewMemoryStore 0) [1, 2, 3] \<and>
   (\<exists>st. GetStats [1, 2, 3] time_Hour (NewMemoryStore 0) = Inr st \<and>
      stats_total st = 3 \<and> stats_completed st = 1 \<and> stats_pending st = 2 \<and>
      stats_overdue st = 0 \<and> stats_by_priority st 4 = Some 1 \<and> stats_by_priority st 1 = None \<and>
      stats_by_category st [] = None) \<and>
   range_order \<lparr>todos = Map.empty, nextID = 1\<rparr> [] \<and>
   todos \<lparr>todos = Map.empty, nextID = 1\<rparr> = Map.empty \<and>
   GetStats [] time_Hour \<lparr>todos = Map.empty, nextID = 1\<rparr> =
     Inr \<lparr>stats_total = 0, stats_completed = 0, stats_pending = 0, stats_overdue = 0,
          stats_by_priority = Map.empty, stats_by_category = Map.empty\<rparr>"
proof -
  let ?s = "NewMemoryStore 0"
  let ?e = "\<lparr>todos = Map.empty, nextID = 1\<rparr>"
  have ro: "range_order ?s [1, 2, 3]" by (rule range_order_NewMemoryStore)
  have st: "stored ?s = mset (range_values (todos ?s) [1, 2, 3])"
    using mset_range_values[OF ro] by simp
  have n: "card (dom (todos ?s)) = 3" using range_order_card[OF ro] by simp
  have c: "size {#t \<in># stored ?s. Completed t#} = 1"
    unfolding st by (simp add: NewMemoryStore_def Seed_def)
  have p: "size {#t \<in># stored ?s. \<not> Completed t#} = 2"
    unfolding st by (simp add: NewMemoryStore_def Seed_def)
  have od: "size {#t \<in># stored ?s. \<not> Completed t \<and> DueDate t \<noteq> 0 \<and> DueDate t < time_Hour#} = 0"
    unfolding st by (simp add: NewMemoryStore_def Seed_def time_Add_def time_Hour_def)
  have p4: "(\<exists>t\<in>#stored ?s. Priority t = 4) \<and> size {#t \<in># stored ?s. Priority t = 4#} = 1"
    unfolding st by (simp add: NewMemoryStore_def Seed_def)
  have p1: "\<not> (\<exists>t\<in>#stored ?s. Priority t = 1)"
    unfolding st by (simp add: NewMemoryStore_def Seed_def)
  obtain st where r: "GetStats [1, 2, 3] time_Hour ?s = Inr st"
      "stats_total st = int (card (dom (todos ?s)))"
      "stats_completed st = int (size {#t \<in># stored ?s. Completed t#})"
      "stats_pending st = int (size {#t \<in># stored ?s. \<not> Completed t#})"
      "stats_overdue st =
         int (size {#t \<in># stored ?s. \<not> Completed t \<and> DueDate t \<noteq> 0 \<and> DueDate t < time_Hour#})"
      "\<forall>p. stats_by_priority st p =
        (if \<exists>t\<in>#stored ?s. Priority t = p
         then Some (int (size {#t \<in># stored ?s. Priority t = p#})) else None)"
      "\<forall>c. stats_by_category st c =
        (if c \<noteq> [] \<and> (\<exists>t\<in>#stored ?s. Category t = c)
         then Some (int (size {#t \<in># stored ?s. Category t = c#})) else None)"
    using get_stats_counts[OF ro, of time_Hour] by blast
  have a: "stats_total st = 3 \<and> stats_completed st = 1 \<and> stats_pending st = 2 \<and>
      stats_overdue st = 0 \<and> stats_by_priority st 4 = Some 1 \<and> stats_by_priority st 1 = None \<and>
      stats_by_category st [] = None"
    using r(2-7) n c p od p4 p1 by simp
  have roe: "range_order ?e []" by (simp add: range_order_def)
  have e: "todos ?e = Map.empty" by simp
  have b: "GetStats [] time_Hour ?e =
     Inr \<lparr>stats_total = 0, stats_completed = 0, stats_pending = 0, stats_overdue = 0,
          stats_by_priority = Map.empty, stats_by_category = Map.empty\<rparr>"
    using get_stats_counts[OF roe, of time_Hour] e by auto
  show ?thesis using ro r(1) a roe e b by simp
qed


section \<open>The response\<close>

text \<open>
  C8, as the code has it. For every record and every current time, the response carries
  two derived fields: \<^verbatim>\<open>IsOverdue\<close> is true exactly when the record is not completed, its
  due date is not the zero time and its due date is before the current time; \<^verbatim>\<open>Status\<close>
  is one of three distinct strings, the source's Chinese literals for "completed" when the
  record is completed, for "overdue" when \<^verbatim>\<open>IsOverdue\<close> holds, and for "in progress"
  otherwise. The stored fields are copied unchanged.
\<close>

theorem to_response_derived_fields:
  "resp_IsOverdue (ToResponse now t) = (\<not> Completed t \<and> DueDate t \<noteq> 0 \<and> DueDate t < now) \<and>
   resp_Status (ToResponse now t) =
     (if Completed t then status_completed
      else if resp_IsOverdue (ToResponse now t) then status_overdue
      else status_in_progress) \<and>
   resp_Status (ToResponse now t) \<in> {status_in_progress, status_completed, status_overdue} \<and>
   status_in_progress \<noteq> status_completed \<and> status_completed \<noteq> status_overdue \<and>
   status_in_progress \<noteq> status_overdue \<and>
   resp_ID (ToResponse now t) = ID t \<and> resp_Title (ToResponse now t) = Title t \<and>
   resp_Description (ToResponse now t) = Description t \<and>
   resp_Completed (ToResponse now t) = Completed t \<and>
   resp_Priority (ToResponse now t) = Priority t \<and>
   resp_Category (ToResponse now t) = Category t \<and>
   resp_DueDate (ToResponse now t) = DueDate t \<and>
   resp_CreatedAt (ToResponse now t) = CreatedAt t \<and>
   resp_UpdatedAt (ToResponse now t) = UpdatedAt t"
  by (simp add: ToResponse_def Let_def time_IsZero_def time_Before_def
      status_in_progress_def status_completed_def status_overdue_def)

text \<open>
  The status of a completed record is not the string "completed", nor one of the two other
  English names.
\<close>

theorem to_response_status_not_english:
  "resp_Status (ToResponse 10
      \<lparr>ID = 4, Title = ''Buy milk'', Description = [], Completed = True, Priority = 1,
       Category = [], DueDate = 0, CreatedAt = 10, UpdatedAt = 10\<rparr>)
     \<notin> {''in-progress'', ''completed'', ''overdue''}"
  by (simp add: ToResponse_def Let_def status_completed_def)


section \<open>A new store\<close>

text \<open>
  C10. A newly constructed store is not empty: its keys are 1, 2 and 3, each holding a
  record with that id, and its counter is 4. \<^verbatim>\<open>GetAllTodos\<close> on it returns three records,
  with the ids 1, 2 and 3, and the first \<^verbatim>\<open>CreateTodo\<close> on it returns id 4, not id 1.
\<close>

theorem new_memory_store_seeded:
  "dom (todos (NewMemoryStore now)) = {1, 2, 3} \<and>
   map (\<lambda>k. map_option ID (todos (NewMemoryStore now) k)) [1, 2, 3] = [Some 1, Some 2, Some 3] \<and>
   nextID (NewMemoryStore now) = 4 \<and>
   size (stored (NewMemoryStore now)) = 3 \<and>
   (sort_Slice_contract srt \<and> range_order (NewMemoryStore now) ks \<longrightarrow>
      (\<exists>r. GetAllTodos srt ks (NewMemoryStore now) = Inr r \<and> length r = 3 \<and>
           mset (map ID r) = {#1, 2, 3#})) \<and>
   (\<exists>t s'. CreateTodo req now' (NewMemoryStore now) = (Inr t, s') \<and> ID t = 4 \<and> ID t \<noteq> 1)"
proof -
  let ?s = "NewMemoryStore now"
  have d: "dom (todos ?s) = {1, 2, 3}" by (auto simp: NewMemoryStore_def Seed_def)
  have ids: "map (\<lambda>k. map_option ID (todos ?s k)) [1, 2, 3] = [Some 1, Some 2, Some 3]"
    by (simp add: NewMemoryStore_def Seed_def)
  have nx: "nextID ?s = 4" by (rule nextID_NewMemoryStore)
  have st: "stored ?s = mset (range_values (todos ?s) [1, 2, 3])"
    using mset_range_values[OF range_order_NewMemoryStore] by simp
  have sz: "size (stored ?s) = 3" unfolding st by (simp add: NewMemoryStore_def Seed_def)
  have stid: "image_mset ID (stored ?s) = {#1, 2, 3#}"
    unfolding st by (simp add: NewMemoryStore_def Seed_def)
  have ga: "\<exists>r. GetAllTodos srt ks ?s = Inr r \<and> length r = 3 \<and> mset (map ID r) = {#1, 2, 3#}"
    if c: "sort_Slice_contract srt" and ro: "range_order ?s ks"
  proof -
    let ?r = "srt (\<lambda>a b. time_After (CreatedAt a) (CreatedAt b)) (range_values (todos ?s) ks)"
    have "mset ?r = mset (range_values (todos ?s) ks)"
      using c unfolding sort_Slice_contract_def by blast
    then have m: "mset ?r = stored ?s" using mset_range_values[OF ro] by simp
    have "size (mset ?r) = 3" unfolding m by (rule sz)
    then have l: "length ?r = 3" by simp
    have "mset (map ID ?r) = image_mset ID (mset ?r)" by simp
    then have i: "mset (map ID ?r) = {#1, 2, 3#}" unfolding m stid .
    show ?thesis unfolding GetAllTodos_result using l i by blast
  qed
  have cr: "\<exists>t s'. CreateTodo req now' ?s = (Inr t, s') \<and> ID t = 4 \<and> ID t \<noteq> 1"
    by (simp add: CreateTodo_def Let_def nx)
  show ?thesis using d ids nx sz ga cr by blast
qed

text \<open>A new store ranged over in the order 3, 1, 2 and sorted by insertion.\<close>

theorem new_memory_store_seeded_witness:
  "sort_Slice_contract (sort_by_less :: (Todo \<Rightarrow> Todo \<Rightarrow> bool) \<Rightarrow> Todo list \<Rightarrow> Todo list) \<and>
   range_order (NewMemoryStore 0) [3, 1, 2] \<and>
   (\<exists>r. GetAllTodos sort_by_less [3, 1, 2] (NewMemoryStore 0) = Inr r \<and> length r = 3 \<and>
        mset (map ID r) = {#1, 2, 3#}) \<and>
   (\<exists>t s'. CreateTodo buy_milk 10 (NewMemoryStore 0) = (Inr t, s') \<and> ID t = 4)"
proof -
  have c: "sort_Slice_contract (sort_by_less :: (Todo \<Rightarrow> Todo \<Rightarrow> bool) \<Rightarrow> Todo list \<Rightarrow> Todo list)"
    by (rule sort_by_less_contract)
  have ro: "range_order (NewMemoryStore 0) [3, 1, 2]"
    by (auto simp: range_order_def NewMemoryStore_def Seed_def)
  show ?thesis
    using c ro new_memory_store_seeded[of 0 sort_by_less "[3, 1, 2]" buy_milk 10] by blast
qed

end
